theory Spec2Isabelle
  imports Complex_Main
begin

section \<open>Full-page screenshot extension: locator, capture loop, page agent, stitcher\<close>

text \<open>
  JavaScript numbers are modelled as exact rationals: every quantity the properties below
  speak about is produced by addition, subtraction, multiplication and comparison of scroll
  offsets, pixel sizes and the device pixel ratio. \<open>undefined\<close> is \<open>None\<close> of an option.
\<close>

type_synonym number = rat

subsection \<open>content_script.js: \<open>findScrollableElement\<close>\<close>

text \<open>
  What the locator reads of one DOM element: the computed style values
  (\<open>display\<close>, \<open>visibility\<close>, \<open>opacity\<close>, \<open>overflowY\<close>), the layout metrics and
  \<open>getBoundingClientRect()\<close>. \<open>node\<close> stands for the object identity of the element.
\<close>

record dom_rect =
  rect_top :: number
  rect_bottom :: number
  rect_left :: number
  rect_right :: number
  rect_width :: number
  rect_height :: number

record element =
  node :: nat
  display :: string
  visibility :: string
  opacity :: string
  overflowY :: string
  scrollHeight :: number
  clientHeight :: number
  clientWidth :: number
  boundingRect :: dom_rect

text \<open>
  The document as the locator sees it: \<open>all_elements\<close> is
  \<open>document.querySelectorAll('*')\<close> in document order, \<open>scrollingElement\<close> is
  \<open>document.scrollingElement\<close> (which may be null).
\<close>

record document =
  innerWidth :: number
  innerHeight :: number
  all_elements :: "element list"
  scrollingElement :: "element option"
  documentElement :: element

definition isScrollable :: "element \<Rightarrow> bool" where
  "isScrollable el =
     (let hasScrollableOverflow = overflowY el \<in> set [''auto'', ''scroll'', ''overlay'']
      in hasScrollableOverflow \<and> scrollHeight el > clientHeight el)"

definition isVisible :: "document \<Rightarrow> element \<Rightarrow> bool" where
  "isVisible doc el =
     (if display el = ''none'' \<or> visibility el = ''hidden'' \<or> opacity el = ''0'' then False
      else let rect = boundingRect el in
        if rect_width rect = 0 \<or> rect_height rect = 0 then False
        else if rect_top rect \<ge> innerHeight doc \<or> rect_bottom rect \<le> 0
                \<or> rect_left rect \<ge> innerWidth doc \<or> rect_right rect \<le> 0 then False
        else True)"

text \<open>The callback of the \<open>filter\<close> over all elements.\<close>

definition is_candidate :: "document \<Rightarrow> element \<Rightarrow> bool" where
  "is_candidate doc el =
     (if clientWidth el < innerWidth doc * (1 / 2) \<or> clientHeight el < innerHeight doc * (1 / 2)
      then False
      else isVisible doc el \<and> isScrollable el)"

definition filtered_candidates :: "document \<Rightarrow> element list" where
  "filtered_candidates doc = filter (is_candidate doc) (all_elements doc)"

text \<open>The list after the conditional \<open>candidates.push(document.scrollingElement)\<close>.\<close>

definition candidates :: "document \<Rightarrow> element list" where
  "candidates doc =
     filtered_candidates doc @
     (case scrollingElement doc of
        None \<Rightarrow> []
      | Some s \<Rightarrow> if scrollHeight s > clientHeight s then [s] else [])"

text \<open>
  \<open>candidates.sort((a, b) => b.scrollHeight - a.scrollHeight)\<close>.
  \<open>Array.prototype.sort\<close> is a stable sort; with this comparator, which orders by one
  numeric key, its result is the one computed by stable insertion: an element is placed
  before the first already-placed element \<open>y\<close> with \<open>compare(x, y) \<le> 0\<close>.
\<close>

definition compare_candidates :: "element \<Rightarrow> element \<Rightarrow> number" where
  "compare_candidates a b = scrollHeight b - scrollHeight a"

fun insert_sorted :: "('a \<Rightarrow> 'a \<Rightarrow> number) \<Rightarrow> 'a \<Rightarrow> 'a list \<Rightarrow> 'a list" where
  "insert_sorted cmp x [] = [x]"
| "insert_sorted cmp x (y # ys) =
     (if cmp x y \<le> 0 then x # y # ys else y # insert_sorted cmp x ys)"

fun array_sort :: "('a \<Rightarrow> 'a \<Rightarrow> number) \<Rightarrow> 'a list \<Rightarrow> 'a list" where
  "array_sort cmp [] = []"
| "array_sort cmp (x # xs) = insert_sorted cmp x (array_sort cmp xs)"

definition findScrollableElement :: "document \<Rightarrow> element" where
  "findScrollableElement doc =
     (case array_sort compare_candidates (candidates doc) of
        chosen # _ \<Rightarrow> chosen
      | [] \<Rightarrow> documentElement doc)"


subsection \<open>background.js: the capture loop\<close>

definition OVERLAP :: number where
  "OVERLAP = 80"

definition MAX_STEPS :: nat where
  "MAX_STEPS = 50"

text \<open>One entry of \<open>state.images\<close>: \<open>{ y: actualY, dataUrl: dataUrl }\<close>.\<close>

record frame =
  frame_y :: number
  frame_dataUrl :: string

text \<open>
  \<open>captureState[tabId]\<close>. \<open>prevY\<close> is not set by \<open>startCapture\<close>, so it is
  \<open>undefined\<close> until the first step has passed the stuck check.
\<close>

record capture_state =
  images :: "frame list"
  fullHeight :: number
  visibleHeight :: number
  devicePixelRatio :: number
  originalScrollY :: number
  currentY :: number
  steps :: nat
  overlap :: number
  prevY :: "number option"

text \<open>The reply of \<open>INIT_CAPTURE\<close>.\<close>

record metrics =
  m_fullHeight :: number
  m_visibleHeight :: number
  m_devicePixelRatio :: number
  m_originalScrollY :: number

text \<open>The state that \<open>startCapture\<close> stores for a tab.\<close>

definition initial_state :: "metrics \<Rightarrow> capture_state" where
  "initial_state m =
     \<lparr> images = [], fullHeight = m_fullHeight m, visibleHeight = m_visibleHeight m,
       devicePixelRatio = m_devicePixelRatio m, originalScrollY = m_originalScrollY m,
       currentY = 0, steps = 0, overlap = OVERLAP, prevY = None \<rparr>"

text \<open>
  What the outside world answers. The reply to \<open>SCROLL_TO\<close> may be missing altogether
  (\<open>None\<close>) or lack \<open>actualY\<close>; the callback of \<open>captureVisibleTab\<close> sees
  \<open>chrome.runtime.lastError\<close> and a \<open>dataUrl\<close> that may be undefined or empty. Replies
  are indexed by the number of the step (the value of \<open>state.steps\<close> after its increment),
  the scroll reply also by the requested offset.
\<close>

record scroll_response =
  resp_actualY :: "number option"

record capture_result =
  lastError :: bool
  dataUrl :: "string option"

record environment =
  scroll_reply :: "nat \<Rightarrow> number \<Rightarrow> scroll_response option"
  capture_reply :: "nat \<Rightarrow> capture_result"
  storage_ok :: bool

text \<open>
  \<open>Math.min(Math.round((actualY / state.fullHeight) * 100), 100)\<close>. \<open>None\<close> is a result
  that is not a finite number (\<open>NaN\<close> for \<open>0 / 0\<close>, \<open>-Infinity\<close> for a negative
  offset over \<open>0\<close>); \<open>Infinity\<close> is cut to \<open>100\<close> by \<open>Math.min\<close>.
\<close>

definition math_round :: "number \<Rightarrow> number" where
  "math_round x = of_int \<lfloor>x + 1 / 2\<rfloor>"

definition progress_percent :: "number \<Rightarrow> number \<Rightarrow> number option" where
  "progress_percent actualY full =
     (if full = 0 then (if actualY > 0 then Some 100 else None)
      else Some (min (math_round ((actualY / full) * 100)) 100))"

text \<open>What the service worker does to the outside world, in order.\<close>

datatype bg_event =
    SendScrollTo number
  | CaptureVisibleTab
  | SendUpdateProgress "number option"
  | SendRestore number
  | StorageSet capture_state
  | TabsCreate string
  | Alert string

text \<open>Which of the four calls of \<open>finishCapture\<close> in \<open>captureLoop\<close> ended the session.\<close>

datatype finish_reason = StepLimit | CaptureFailed | Stuck | Complete

definition finishCapture :: "environment \<Rightarrow> capture_state \<Rightarrow> bg_event list" where
  "finishCapture env state =
     [SendRestore (originalScrollY state), StorageSet state] @
     (if storage_ok env then [TabsCreate ''result.html'']
      else [Alert ''Image too large to process with simple storage.''])"

text \<open>
  One run of the body of \<open>captureLoop\<close>, up to the point where it either calls
  \<open>finishCapture\<close> or calls itself again.
\<close>

datatype step_result =
    Finish "bg_event list" finish_reason capture_state
  | Continue "bg_event list" capture_state

definition actual_offset :: "scroll_response option \<Rightarrow> number \<Rightarrow> number" where
  "actual_offset response requested =
     (case response of
        None \<Rightarrow> requested
      | Some r \<Rightarrow> (case resp_actualY r of None \<Rightarrow> requested | Some a \<Rightarrow> a))"

text \<open>
  The test \<open>chrome.runtime.lastError || !dataUrl\<close>: \<open>None\<close> when the capture failed,
  the data URL otherwise.
\<close>

definition captured_url :: "capture_result \<Rightarrow> string option" where
  "captured_url c =
     (if lastError c then None
      else case dataUrl c of
             None \<Rightarrow> None
           | Some url \<Rightarrow> if url = [] then None else Some url)"

definition captureStep :: "environment \<Rightarrow> capture_state \<Rightarrow> step_result" where
  "captureStep env state0 =
     (if steps state0 \<ge> MAX_STEPS then Finish [] StepLimit state0
      else
        let state = state0\<lparr>steps := steps state0 + 1\<rparr>;
            response = scroll_reply env (steps state) (currentY state);
            actualY = actual_offset response (currentY state);
            scrolled = [SendScrollTo (currentY state), CaptureVisibleTab];
            cap = capture_reply env (steps state)
        in case captured_url cap of
             None \<Rightarrow> Finish scrolled CaptureFailed state
           | Some url \<Rightarrow>
             let state1 = state\<lparr>images := images state @
                                  [\<lparr>frame_y = actualY, frame_dataUrl = url\<rparr>]\<rparr>;
                 percent = progress_percent actualY (fullHeight state1);
                 evs = scrolled @ [SendUpdateProgress percent];
                 nextY = actualY + visibleHeight state1 - OVERLAP
             in if prevY state1 \<noteq> None \<and> Some actualY = prevY state1
                then Finish evs Stuck state1
                else
                  let state2 = state1\<lparr>prevY := Some actualY, currentY := nextY\<rparr>
                  in if actualY + visibleHeight state2 \<ge> fullHeight state2
                     then Finish evs Complete state2
                     else Continue evs state2)"

text \<open>
  The result of a session: everything done to the outside world, the call of
  \<open>finishCapture\<close> that ended it, and the state handed to storage.
\<close>

record outcome =
  events :: "bg_event list"
  reason :: finish_reason
  final :: capture_state

function captureLoop :: "environment \<Rightarrow> capture_state \<Rightarrow> outcome" where
  "captureLoop env state =
     (case captureStep env state of
        Finish evs r state' \<Rightarrow>
          \<lparr> events = evs @ finishCapture env state', reason = r, final = state' \<rparr>
      | Continue evs state' \<Rightarrow>
          (let rest = captureLoop env state'
           in rest\<lparr>events := evs @ events rest\<rparr>))"
  by pat_completeness auto
termination
proof (relation "measure (\<lambda>(env, state). MAX_STEPS - steps state)")
  show "wf (measure (\<lambda>(env, state). MAX_STEPS - steps state))"
    by simp
next
  fix env :: environment and state state' :: capture_state and evs :: "bg_event list"
  assume "captureStep env state = Continue evs state'"
  then have "steps state < MAX_STEPS \<and> steps state' = Suc (steps state)"
    by (auto simp: captureStep_def Let_def split: if_splits option.splits)
  then show "((env, state'), (env, state)) \<in> measure (\<lambda>(env, state). MAX_STEPS - steps state)"
    by (simp add: diff_less_mono2)
qed

declare captureLoop.simps [simp del]


subsection \<open>content_script.js: preparing and restoring the page\<close>

text \<open>
  The mutable part of a DOM element that the content script reads and writes: its
  \<open>id\<close>, the computed \<open>position\<close>, the inline styles \<open>el.style.visibility\<close>,
  \<open>el.style.position\<close> and \<open>el.style.overflow\<close>, and \<open>scrollTop\<close> with the largest
  value the browser lets it take.
\<close>

record page_node =
  el_id :: string
  computed_position :: string
  style_visibility :: string
  style_position :: string
  style_overflow :: string
  scrollTop :: number
  scrollTopMax :: number

text \<open>
  The page: \<open>view\<close> is the layout the locator inspects, \<open>dom\<close> lists the node
  identities in the order of \<open>document.querySelectorAll('*')\<close>, \<open>node_of\<close> is the store
  of the elements, and the window has its own scroll offset.
\<close>

record page =
  view :: document
  dom :: "nat list"
  node_of :: "nat \<Rightarrow> page_node"
  window_scrollY :: number
  window_scrollMaxY :: number
  window_devicePixelRatio :: number

record saved_style =
  saved_visibility :: string
  saved_position :: string

text \<open>
  The variables of the content script. \<open>originalStyles\<close> is a \<open>Map\<close>, which keeps
  insertion order and one entry per key: an association list with \<open>map_set\<close>.
\<close>

record agent =
  originalStyles :: "(nat \<times> saved_style) list"
  cs_originalScrollY :: number
  scrollContainer :: "nat option"
  progressBarContainer :: "nat option"
  progressBarFill :: "nat option"

fun map_set :: "'k \<Rightarrow> 'v \<Rightarrow> ('k \<times> 'v) list \<Rightarrow> ('k \<times> 'v) list" where
  "map_set k v [] = [(k, v)]"
| "map_set k v ((k', v') # m) = (if k' = k then (k, v) # m else (k', v') # map_set k v m)"

definition root_node :: "page \<Rightarrow> nat" where
  "root_node pg = node (documentElement (view pg))"

definition update_node :: "nat \<Rightarrow> (page_node \<Rightarrow> page_node) \<Rightarrow> page \<Rightarrow> page" where
  "update_node n f pg = pg\<lparr>node_of := (node_of pg)(n := f (node_of pg n))\<rparr>"

definition set_visibility :: "nat \<Rightarrow> string \<Rightarrow> page \<Rightarrow> page" where
  "set_visibility n v = update_node n (\<lambda>nd. nd\<lparr>style_visibility := v\<rparr>)"

definition set_overflow :: "nat \<Rightarrow> string \<Rightarrow> page \<Rightarrow> page" where
  "set_overflow n v = update_node n (\<lambda>nd. nd\<lparr>style_overflow := v\<rparr>)"

text \<open>The browser keeps a scroll offset between \<open>0\<close> and the largest reachable offset.\<close>

definition clamp_scroll :: "number \<Rightarrow> number \<Rightarrow> number" where
  "clamp_scroll limit y = max 0 (min y limit)"

definition set_scrollTop :: "nat \<Rightarrow> number \<Rightarrow> page \<Rightarrow> page" where
  "set_scrollTop n y =
     update_node n (\<lambda>nd. nd\<lparr>scrollTop := clamp_scroll (scrollTopMax nd) y\<rparr>)"

definition window_scrollTo :: "number \<Rightarrow> page \<Rightarrow> page" where
  "window_scrollTo y pg = pg\<lparr>window_scrollY := clamp_scroll (window_scrollMaxY pg) y\<rparr>"

definition progress_bar_id :: string where
  "progress_bar_id = ''fps-extension-progress-bar''"

definition fresh_node :: "page \<Rightarrow> nat" where
  "fresh_node pg = Suc (fold max (dom pg) 0)"

definition createProgressBar :: "agent \<Rightarrow> page \<Rightarrow> agent \<times> page" where
  "createProgressBar ag pg =
     (if progressBarContainer ag \<noteq> None then (ag, pg)
      else
        let c = fresh_node pg;
            f = Suc c;
            container = \<lparr> el_id = progress_bar_id, computed_position = ''fixed'',
                          style_visibility = [], style_position = ''fixed'',
                          style_overflow = [], scrollTop = 0, scrollTopMax = 0 \<rparr>;
            fill = \<lparr> el_id = [], computed_position = ''static'',
                     style_visibility = [], style_position = [],
                     style_overflow = [], scrollTop = 0, scrollTopMax = 0 \<rparr>
        in (ag\<lparr>progressBarContainer := Some c, progressBarFill := Some f\<rparr>,
            pg\<lparr>dom := dom pg @ [c, f], node_of := (node_of pg)(c := container, f := fill)\<rparr>))"

definition removeProgressBar :: "agent \<Rightarrow> page \<Rightarrow> agent \<times> page" where
  "removeProgressBar ag pg =
     (case progressBarContainer ag of
        None \<Rightarrow> (ag, pg)
      | Some c \<Rightarrow>
          (ag\<lparr>progressBarContainer := None, progressBarFill := None\<rparr>,
           pg\<lparr>dom := filter (\<lambda>n. n \<noteq> c \<and> Some n \<noteq> progressBarFill ag) (dom pg)\<rparr>))"

text \<open>The callback of \<open>allElements.forEach\<close> in \<open>hideFixedElements\<close>.\<close>

definition hide_if_fixed :: "nat \<Rightarrow> agent \<times> page \<Rightarrow> agent \<times> page" where
  "hide_if_fixed el = (\<lambda>(ag, pg).
     let nd = node_of pg el in
     if el_id nd = progress_bar_id then (ag, pg)
     else if computed_position nd = ''fixed'' \<or> computed_position nd = ''sticky''
     then (ag\<lparr>originalStyles :=
                 map_set el \<lparr>saved_visibility = style_visibility nd,
                             saved_position = style_position nd\<rparr> (originalStyles ag)\<rparr>,
           set_visibility el ''hidden'' pg)
     else (ag, pg))"

definition hideFixedElements :: "agent \<Rightarrow> page \<Rightarrow> agent \<times> page" where
  "hideFixedElements ag pg = fold hide_if_fixed (dom pg) (ag, pg)"

text \<open>
  \<open>initCapture\<close>. The metrics are those of the chosen container in the layout that the
  locator inspected.
\<close>

definition initCapture :: "agent \<Rightarrow> page \<Rightarrow> metrics \<times> agent \<times> page" where
  "initCapture ag0 pg0 =
     (let chosen = findScrollableElement (view pg0);
          sc = node chosen;
          orig = (if sc = root_node pg0 then window_scrollY pg0 else scrollTop (node_of pg0 sc));
          ag1 = ag0\<lparr>scrollContainer := Some sc, cs_originalScrollY := orig\<rparr>;
          (ag2, pg2) = createProgressBar ag1 pg0;
          (ag3, pg3) = hideFixedElements ag2 pg2;
          pg4 = set_overflow (root_node pg3) ''hidden'' pg3;
          pg5 = (if sc \<noteq> root_node pg4 then set_overflow sc ''hidden'' pg4 else pg4)
      in (\<lparr> m_fullHeight = scrollHeight chosen, m_visibleHeight = clientHeight chosen,
            m_devicePixelRatio = window_devicePixelRatio pg5, m_originalScrollY = orig \<rparr>,
          ag3, pg5))"

text \<open>\<open>scrollToAndReady\<close>, without its wait: the new page and the offset it reports.\<close>

definition scrollToAndReady :: "number \<Rightarrow> agent \<Rightarrow> page \<Rightarrow> page \<times> number" where
  "scrollToAndReady y ag pg =
     (if scrollContainer ag = Some (root_node pg)
      then (let pg' = window_scrollTo y pg in (pg', window_scrollY pg'))
      else case scrollContainer ag of
             Some sc \<Rightarrow> (let pg' = set_scrollTop sc y pg in (pg', scrollTop (node_of pg' sc)))
           | None \<Rightarrow> (pg, 0))"

definition restorePage :: "number \<Rightarrow> agent \<Rightarrow> page \<Rightarrow> agent \<times> page" where
  "restorePage savedScrollY ag0 pg0 =
     (let (ag1, pg1) = removeProgressBar ag0 pg0;
          pg2 = fold (\<lambda>(el, styles). set_visibility el (saved_visibility styles))
                     (originalStyles ag1) pg1;
          ag2 = ag1\<lparr>originalStyles := []\<rparr>;
          pg3 = set_overflow (root_node pg2) [] pg2;
          pg4 = (case scrollContainer ag2 of
                   Some sc \<Rightarrow> if sc \<noteq> root_node pg3 then set_overflow sc [] pg3 else pg3
                 | None \<Rightarrow> pg3);
          pg5 = (if scrollContainer ag2 = Some (root_node pg4) then window_scrollTo savedScrollY pg4
                 else case scrollContainer ag2 of
                        Some sc \<Rightarrow> set_scrollTop sc savedScrollY pg4
                      | None \<Rightarrow> pg4)
      in (ag2, pg5))"


subsection \<open>result.js: stitching\<close>

text \<open>
  \<open>data.capturedData\<close> as read back from \<open>chrome.storage.local\<close>: the page reads
  \<open>images\<close>, \<open>devicePixelRatio\<close> and \<open>overlap\<close>, and each of them may be missing.
\<close>

record captured_data =
  cd_images :: "frame list option"
  cd_devicePixelRatio :: "number option"
  cd_overlap :: "number option"

definition stored :: "capture_state \<Rightarrow> captured_data" where
  "stored state =
     \<lparr> cd_images = Some (images state), cd_devicePixelRatio = Some (devicePixelRatio state),
       cd_overlap = Some (overlap state) \<rparr>"

text \<open>\<open>v || d\<close> on a number that may be undefined: \<open>undefined\<close> and \<open>0\<close> are falsy.\<close>

definition or_default :: "number option \<Rightarrow> number \<Rightarrow> number" where
  "or_default v d = (case v of None \<Rightarrow> d | Some x \<Rightarrow> if x = 0 then d else x)"

text \<open>A decoded \<open>Image\<close>: its source and its size in device pixels.\<close>

record html_image =
  img_src :: string
  img_width :: number
  img_height :: number

text \<open>An entry of \<open>loadedImages\<close>: \<open>{ img, y }\<close>.\<close>

record loaded_image =
  li_img :: html_image
  li_y :: number

datatype load_error = ImageLoadFailed

text \<open>
  \<open>loadImage\<close>: the browser's decoder is a parameter, a URL it cannot decode fires
  \<open>onerror\<close> and rejects the promise.
\<close>

definition loadImage :: "(string \<Rightarrow> html_image option) \<Rightarrow> string \<Rightarrow> number \<Rightarrow> load_error + loaded_image" where
  "loadImage decode url y =
     (case decode url of
        None \<Rightarrow> Inl ImageLoadFailed
      | Some img \<Rightarrow> Inr \<lparr>li_img = img, li_y = y\<rparr>)"

text \<open>\<open>Promise.all\<close> over the images: every image loaded, or a rejection.\<close>

fun load_all :: "(string \<Rightarrow> html_image option) \<Rightarrow> frame list \<Rightarrow> load_error + loaded_image list" where
  "load_all decode [] = Inr []"
| "load_all decode (f # fs) =
     (case loadImage decode (frame_dataUrl f) (frame_y f) of
        Inl e \<Rightarrow> Inl e
      | Inr li \<Rightarrow> (case load_all decode fs of Inl e \<Rightarrow> Inl e | Inr ls \<Rightarrow> Inr (li # ls)))"

text \<open>
  The texts shown by \<open>updateStatus\<close>: \<open>'Loading captured data...'\<close>,
  \<open>'No data found in storage.'\<close>, \<open>'Found n images. Processing...'\<close>,
  \<open>'Loading images...'\<close>, \<open>'Loading image i/n...'\<close>, \<open>'Failed to load images.'\<close>,
  \<open>'Stitching images...'\<close>, \<open>'Done!'\<close> and \<open>'Error: ...'\<close> from the \<open>catch\<close>.
\<close>

datatype status =
    LoadingCapturedData
  | NoDataFound
  | FoundImages nat
  | LoadingImages
  | LoadingImage nat nat
  | FailedToLoadImages
  | StitchingImages
  | Done
  | ErrorStatus load_error

text \<open>
  What the result page does, in order. \<open>DrawImage3 img dx dy\<close> is
  \<open>ctx.drawImage(img, dx, dy)\<close>; \<open>DrawImage9 img sx sy sw sh dx dy dw dh\<close> is the call
  with a source and a destination rectangle.
\<close>

datatype page_effect =
    UpdateStatus status
  | SetCanvasWidth number
  | SetCanvasHeight number
  | DrawImage3 html_image number number
  | DrawImage9 html_image number number number number number number number number
  | HideStatus
  | AddDownloadListener

text \<open>The callback of \<open>loadedImages.forEach((item, index) => ...)\<close>.\<close>

definition draw_item :: "number \<Rightarrow> number \<Rightarrow> loaded_image \<Rightarrow> nat \<Rightarrow> page_effect list" where
  "draw_item scale ovl item index =
     (let img = li_img item;
          drawY = li_y item * scale
      in if index = 0 then [DrawImage3 img 0 drawY]
         else
           let cropY = ovl * scale;
               cropHeight = img_height img - cropY
           in if cropHeight > 0
              then [DrawImage9 img 0 cropY (img_width img) cropHeight
                                   0 (drawY + cropY) (img_width img) cropHeight]
              else [])"

definition forEach_indexed :: "('a \<Rightarrow> nat \<Rightarrow> 'e list) \<Rightarrow> 'a list \<Rightarrow> 'e list" where
  "forEach_indexed f xs = concat (map (\<lambda>(index, item). f item index) (enumerate 0 xs))"

text \<open>The \<open>DOMContentLoaded\<close> handler, given what storage returned for \<open>capturedData\<close>.\<close>

definition render :: "(string \<Rightarrow> html_image option) \<Rightarrow> captured_data option \<Rightarrow> page_effect list" where
  "render decode data =
     UpdateStatus LoadingCapturedData #
     (case data of
        None \<Rightarrow> [UpdateStatus NoDataFound]
      | Some state \<Rightarrow>
         (case cd_images state of
            None \<Rightarrow> [UpdateStatus NoDataFound]
          | Some imgs \<Rightarrow>
             (if length imgs = 0 then [UpdateStatus NoDataFound]
              else
               (let scale = or_default (cd_devicePixelRatio state) 1;
                    ovl = or_default (cd_overlap state) 0;
                    announce = UpdateStatus (FoundImages (length imgs)) # UpdateStatus LoadingImages #
                               map (\<lambda>index. UpdateStatus (LoadingImage (index + 1) (length imgs)))
                                   [0..<length imgs]
                in (case load_all decode imgs of
                      Inl e \<Rightarrow> announce @ [UpdateStatus (ErrorStatus e)]
                    | Inr loadedImages \<Rightarrow>
                       (case loadedImages of
                          [] \<Rightarrow> announce @ [UpdateStatus FailedToLoadImages]
                        | first # _ \<Rightarrow>
                           (let width = img_width (li_img first);
                                lastImg = last loadedImages;
                                totalHeight = (li_y lastImg * scale) + img_height (li_img lastImg)
                            in announce @
                               [UpdateStatus StitchingImages,
                                SetCanvasWidth width, SetCanvasHeight totalHeight] @
                               forEach_indexed (draw_item scale ovl) loadedImages @
                               [UpdateStatus Done, HideStatus, AddDownloadListener])))))))"

text \<open>
  The composite the page ends up with: the size last assigned to the canvas (\<open>None\<close>
  when the handler never assigns one) and the draw calls.
\<close>

fun assign_height :: "page_effect \<Rightarrow> number option \<Rightarrow> number option" where
  "assign_height (SetCanvasHeight h) _ = Some h"
| "assign_height _ current = current"

fun assign_width :: "page_effect \<Rightarrow> number option \<Rightarrow> number option" where
  "assign_width (SetCanvasWidth w) _ = Some w"
| "assign_width _ current = current"

definition canvas_height :: "page_effect list \<Rightarrow> number option" where
  "canvas_height effs = fold assign_height effs None"

definition canvas_width :: "page_effect list \<Rightarrow> number option" where
  "canvas_width effs = fold assign_width effs None"

fun is_draw :: "page_effect \<Rightarrow> bool" where
  "is_draw (DrawImage3 _ _ _) = True"
| "is_draw (DrawImage9 _ _ _ _ _ _ _ _ _) = True"
| "is_draw _ = False"

definition draw_calls :: "page_effect list \<Rightarrow> page_effect list" where
  "draw_calls effs = filter is_draw effs"


subsection \<open>Notions used to state the properties, and concrete inputs\<close>

text \<open>
  Index \<open>i\<close> holds the first of the entries of \<open>cs\<close> with the largest content length:
  no entry is longer, and every earlier entry is strictly shorter.
\<close>

definition first_largest :: "element list \<Rightarrow> nat \<Rightarrow> bool" where
  "first_largest cs i \<longleftrightarrow>
     i < length cs \<and>
     (\<forall>j < length cs. scrollHeight (cs ! j) \<le> scrollHeight (cs ! i)) \<and>
     (\<forall>j < i. scrollHeight (cs ! j) < scrollHeight (cs ! i))"

definition on_screen :: dom_rect where
  "on_screen = \<lparr> rect_top = 0, rect_bottom = 500, rect_left = 0, rect_right = 1024,
                  rect_width = 1024, rect_height = 500 \<rparr>"

definition zero_area :: dom_rect where
  "zero_area = \<lparr> rect_top = 0, rect_bottom = 0, rect_left = 0, rect_right = 1024,
                  rect_width = 1024, rect_height = 0 \<rparr>"

definition block_element :: "nat \<Rightarrow> string \<Rightarrow> number \<Rightarrow> number \<Rightarrow> dom_rect \<Rightarrow> element" where
  "block_element n ovf sh ch r =
     \<lparr> node = n, display = ''block'', visibility = ''visible'', opacity = ''1'',
       overflowY = ovf, scrollHeight = sh, clientHeight = ch, clientWidth = 1024,
       boundingRect = r \<rparr>"

text \<open>
  A 1024 x 768 window whose root does not scroll, with two visible scrollable panels of
  content lengths 1000 and 5000.
\<close>

definition doc_two_scrollers :: document where
  "doc_two_scrollers =
     (let html = block_element 0 ''visible'' 768 768 on_screen;
          small = block_element 1 ''auto'' 1000 500 on_screen;
          big = block_element 2 ''auto'' 5000 500 on_screen
      in \<lparr> innerWidth = 1024, innerHeight = 768, all_elements = [html, small, big],
            scrollingElement = Some html, documentElement = html \<rparr>)"

text \<open>
  The root scrolls (content 5000 over 768 visible) and two visible panels have the same
  content length 5000.
\<close>

definition doc_tie :: document where
  "doc_tie =
     (let html = block_element 0 ''visible'' 5000 768 on_screen;
          left = block_element 1 ''auto'' 5000 500 on_screen;
          right = block_element 2 ''scroll'' 5000 500 on_screen
      in \<lparr> innerWidth = 1024, innerHeight = 768, all_elements = [html, left, right],
            scrollingElement = Some html, documentElement = html \<rparr>)"

text \<open>
  The root element has a bounding box of height 0 (all of its content is positioned out
  of flow) and scrolls over 5000 units; a visible panel scrolls over 1000 units.
\<close>

definition doc_zero_area_root :: document where
  "doc_zero_area_root =
     (let html = block_element 0 ''visible'' 5000 768 zero_area;
          panel = block_element 1 ''auto'' 1000 500 on_screen
      in \<lparr> innerWidth = 1024, innerHeight = 768, all_elements = [html, panel],
            scrollingElement = Some html, documentElement = html \<rparr>)"

text \<open>
  Neither the root nor anything else scrolls visibly: the only scrollable element is a menu
  with \<open>display: none\<close> and content length 2000.
\<close>

definition doc_plain :: document where
  "doc_plain =
     (let html = block_element 0 ''visible'' 768 768 on_screen;
          hidden_menu = (block_element 1 ''auto'' 2000 500 on_screen)\<lparr>display := ''none''\<rparr>
      in \<lparr> innerWidth = 1024, innerHeight = 768, all_elements = [html, hidden_menu],
            scrollingElement = Some html, documentElement = html \<rparr>)"

text \<open>The capture requests and the requested scroll offsets among the events of a session.\<close>

definition capture_requests :: "bg_event list \<Rightarrow> nat" where
  "capture_requests evs = length (filter (\<lambda>e. e = CaptureVisibleTab) evs)"

definition scroll_requests :: "bg_event list \<Rightarrow> number list" where
  "scroll_requests evs = [y. SendScrollTo y \<leftarrow> evs]"

fun step_events :: "step_result \<Rightarrow> bg_event list" where
  "step_events (Finish evs r s) = evs"
| "step_events (Continue evs s) = evs"

fun step_state :: "step_result \<Rightarrow> capture_state" where
  "step_state (Finish evs r s) = s"
| "step_state (Continue evs s) = s"

fun finished :: "step_result \<Rightarrow> finish_reason option" where
  "finished (Finish evs r s) = Some r"
| "finished (Continue evs s) = None"

text \<open>
  A page 2000 units long seen through a container 500 units high: the browser stops
  scrolling at offset 1500, and every capture succeeds.
\<close>

definition page_metrics :: metrics where
  "page_metrics = \<lparr> m_fullHeight = 2000, m_visibleHeight = 500, m_devicePixelRatio = 2,
                     m_originalScrollY = 120 \<rparr>"

definition env_scrolling :: environment where
  "env_scrolling =
     \<lparr> scroll_reply = (\<lambda>n y. Some \<lparr>resp_actualY = Some (min y 1500)\<rparr>),
       capture_reply = (\<lambda>n. \<lparr>lastError = False, dataUrl = Some ''data:image/png''\<rparr>),
       storage_ok = True \<rparr>"

text \<open>The same page when the container cannot move beyond offset 420.\<close>

definition env_stuck :: environment where
  "env_stuck =
     \<lparr> scroll_reply = (\<lambda>n y. Some \<lparr>resp_actualY = Some (min y 420)\<rparr>),
       capture_reply = (\<lambda>n. \<lparr>lastError = False, dataUrl = Some ''data:image/png''\<rparr>),
       storage_ok = True \<rparr>"

text \<open>The same page when the content script never answers a scroll request.\<close>

definition env_silent :: environment where
  "env_silent =
     \<lparr> scroll_reply = (\<lambda>n y. None),
       capture_reply = (\<lambda>n. \<lparr>lastError = False, dataUrl = Some ''data:image/png''\<rparr>),
       storage_ok = True \<rparr>"

text \<open>
  What the draw callback emits for a frame that is not the first: nothing when the crop
  leaves no height, else the part of the image below the top \<open>ovl * scale\<close> device pixels,
  placed that far below the frame's own position.
\<close>

definition cropped_draw :: "number \<Rightarrow> number \<Rightarrow> loaded_image \<Rightarrow> page_effect list" where
  "cropped_draw scale ovl item =
     (if img_height (li_img item) - ovl * scale > 0
      then [DrawImage9 (li_img item)
              0 (ovl * scale) (img_width (li_img item)) (img_height (li_img item) - ovl * scale)
              0 (li_y item * scale + ovl * scale)
              (img_width (li_img item)) (img_height (li_img item) - ovl * scale)]
      else [])"

text \<open>
  Three frames at offsets 0, 420 and 840, captured at device pixel ratio 2 with overlap
  80; every data URL decodes to an image 1000 device pixels high, except \<open>thin\<close>, which
  is only 100 high.
\<close>

definition decode_example :: "string \<Rightarrow> html_image option" where
  "decode_example url =
     (if url = [] then None
      else if url = ''thin'' then Some \<lparr>img_src = url, img_width = 2048, img_height = 100\<rparr>
      else Some \<lparr>img_src = url, img_width = 2048, img_height = 1000\<rparr>)"



definition data_no_frames :: captured_data where
  "data_no_frames = \<lparr> cd_images = Some [], cd_devicePixelRatio = Some 2, cd_overlap = Some 80 \<rparr>"

text \<open>The variables of the content script when it has just been injected.\<close>

definition agent0 :: agent where
  "agent0 = \<lparr> originalStyles = [], cs_originalScrollY = 0, scrollContainer = None,
               progressBarContainer = None, progressBarFill = None \<rparr>"

text \<open>
  A single-page application: the root does not scroll; the application container (node 1)
  scrolls 5000 units of content and gets its scrolling from its inline style
  \<open>overflow: auto\<close>; a fixed header (node 2) has the inline style \<open>visibility: visible\<close>.
  The container is scrolled to offset 120.
\<close>

definition plain_node :: page_node where
  "plain_node = \<lparr> el_id = [], computed_position = ''static'', style_visibility = [],
                   style_position = [], style_overflow = [], scrollTop = 0, scrollTopMax = 0 \<rparr>"

definition page_inline_overflow :: page where
  "page_inline_overflow =
     (let html = block_element 0 ''visible'' 768 768 on_screen;
          app = block_element 1 ''auto'' 5000 768 on_screen;
          header = block_element 2 ''visible'' 60 60 on_screen
      in \<lparr> view = \<lparr> innerWidth = 1024, innerHeight = 768, all_elements = [html, app, header],
                     scrollingElement = Some html, documentElement = html \<rparr>,
            dom = [0, 1, 2],
            node_of = (\<lambda>n. plain_node)
              (1 := plain_node\<lparr>el_id := ''app'', style_overflow := ''auto'',
                                scrollTop := 120, scrollTopMax := 4232\<rparr>,
               2 := plain_node\<lparr>computed_position := ''fixed'', style_visibility := ''visible''\<rparr>),
            window_scrollY = 0, window_scrollMaxY = 0, window_devicePixelRatio = 2 \<rparr>)"

text \<open>The page as \<open>initCapture\<close> leaves it, and as \<open>restorePage\<close> leaves it after that.\<close>

definition prepared :: "page \<Rightarrow> metrics \<times> agent \<times> page" where
  "prepared pg = initCapture agent0 pg"

definition prepared_then_restored :: "page \<Rightarrow> agent \<times> page" where
  "prepared_then_restored pg =
     (case prepared pg of (m, ag, pg') \<Rightarrow> restorePage (m_originalScrollY m) ag pg')"

section \<open>Properties\<close>

subsection \<open>The locator\<close>

lemmas locator_defs = on_screen_def zero_area_def block_element_def candidates_def
  filtered_candidates_def is_candidate_def isVisible_def isScrollable_def
  findScrollableElement_def compare_candidates_def Let_def

lemma insert_sorted_not_Nil: "insert_sorted cmp x ys \<noteq> []"
  by (cases ys) auto

lemma array_sort_Nil_iff: "array_sort cmp xs = [] \<longleftrightarrow> xs = []"
  by (cases xs) (auto simp: insert_sorted_not_Nil)

lemma hd_insert_sorted:
  "hd (insert_sorted cmp x ys) = (if ys = [] then x else if cmp x (hd ys) \<le> 0 then x else hd ys)"
  by (cases ys) auto

lemma set_insert_sorted: "set (insert_sorted cmp x ys) = insert x (set ys)"
  by (induction ys) auto

lemma set_array_sort: "set (array_sort cmp xs) = set xs"
  by (induction xs) (auto simp: set_insert_sorted)

text \<open>
  The head of the sorted candidate list is the first candidate, in enumeration order,
  among those of largest content length.
\<close>

lemma hd_array_sort_first_largest:
  "cs \<noteq> [] \<Longrightarrow> \<exists>i. first_largest cs i \<and> hd (array_sort compare_candidates cs) = cs ! i"
proof (induction cs)
  case Nil
  then show ?case by simp
next
  case (Cons x xs)
  show ?case
  proof (cases "xs = []")
    case True
    then have "first_largest (x # xs) 0 \<and> hd (array_sort compare_candidates (x # xs)) = (x # xs) ! 0"
      by (simp add: first_largest_def)
    then show ?thesis by blast
  next
    case False
    with Cons.IH obtain i where fl: "first_largest xs i"
      and h: "hd (array_sort compare_candidates xs) = xs ! i" by blast
    have ne: "array_sort compare_candidates xs \<noteq> []"
      using False by (simp add: array_sort_Nil_iff)
    show ?thesis
    proof (cases "scrollHeight (xs ! i) \<le> scrollHeight x")
      case True
      then have "hd (array_sort compare_candidates (x # xs)) = x"
        using ne h by (simp add: hd_insert_sorted compare_candidates_def)
      moreover have "first_largest (x # xs) 0"
        unfolding first_largest_def
      proof (intro conjI allI impI)
        fix j assume "j < length (x # xs)"
        then show "scrollHeight ((x # xs) ! j) \<le> scrollHeight ((x # xs) ! 0)"
          using fl True by (cases j) (auto simp: first_largest_def intro: order_trans)
      qed simp_all
      ultimately show ?thesis by force
    next
      case False
      then have "hd (array_sort compare_candidates (x # xs)) = xs ! i"
        using ne h by (simp add: hd_insert_sorted compare_candidates_def)
      moreover have "first_largest (x # xs) (Suc i)"
        unfolding first_largest_def
      proof (intro conjI allI impI)
        show "Suc i < length (x # xs)" using fl by (simp add: first_largest_def)
      next
        fix j assume "j < length (x # xs)"
        then show "scrollHeight ((x # xs) ! j) \<le> scrollHeight ((x # xs) ! Suc i)"
          using fl False by (cases j) (auto simp: first_largest_def)
      next
        fix j assume "j < Suc i"
        then show "scrollHeight ((x # xs) ! j) < scrollHeight ((x # xs) ! Suc i)"
          using fl False by (cases j) (auto simp: first_largest_def)
      qed
      ultimately show ?thesis by force
    qed
  qed
qed

lemma find_hd:
  "candidates doc \<noteq> [] \<Longrightarrow>
   findScrollableElement doc = hd (array_sort compare_candidates (candidates doc))"
  by (auto simp: findScrollableElement_def array_sort_Nil_iff split: list.splits)

lemma find_fallback:
  "candidates doc = [] \<Longrightarrow> findScrollableElement doc = documentElement doc"
  by (simp add: findScrollableElement_def)

lemma find_in_candidates:
  assumes "candidates doc \<noteq> []"
  shows "findScrollableElement doc \<in> set (candidates doc)"
proof -
  from assms have "array_sort compare_candidates (candidates doc) \<noteq> []"
    by (simp add: array_sort_Nil_iff)
  then have "hd (array_sort compare_candidates (candidates doc))
             \<in> set (array_sort compare_candidates (candidates doc))"
    by (rule hd_in_set)
  with assms show ?thesis by (simp add: find_hd set_array_sort)
qed

lemma candidates_cases:
  "c \<in> set (candidates doc) \<Longrightarrow>
   (c \<in> set (all_elements doc) \<and> is_candidate doc c) \<or>
   (scrollingElement doc = Some c \<and> clientHeight c < scrollHeight c)"
  by (auto simp: candidates_def filtered_candidates_def split: option.splits if_splits)

lemma isVisible_iff:
  "isVisible doc el \<longleftrightarrow>
     display el \<noteq> ''none'' \<and> visibility el \<noteq> ''hidden'' \<and> opacity el \<noteq> ''0'' \<and>
     rect_width (boundingRect el) \<noteq> 0 \<and> rect_height (boundingRect el) \<noteq> 0 \<and>
     rect_top (boundingRect el) < innerHeight doc \<and> 0 < rect_bottom (boundingRect el) \<and>
     rect_left (boundingRect el) < innerWidth doc \<and> 0 < rect_right (boundingRect el)"
  by (auto simp: isVisible_def Let_def)

text \<open>
  C1, as stated, fails: a visible scrollable panel survives the filters, yet the locator
  returns the root element, whose bounding box has zero area. The root was pushed onto the
  candidate list because it scrolls, and nothing checks its visibility.
\<close>

theorem locate_zero_area_root_counterexample:
  "filtered_candidates doc_zero_area_root \<noteq> [] \<and>
   findScrollableElement doc_zero_area_root = block_element 0 ''visible'' 5000 768 zero_area \<and>
   rect_height (boundingRect (findScrollableElement doc_zero_area_root)) = 0 \<and>
   \<not> isVisible doc_zero_area_root (findScrollableElement doc_zero_area_root)"
  by (simp add: doc_zero_area_root_def locator_defs)

text \<open>
  C1, amended: the element returned by the locator is either an enumerated element that
  passed the filters (so it is scrollable, at least half the window wide and high,
  displayed, not hidden, not fully transparent, of non-zero area and not fully outside
  the viewport), or the document's native scrolling
  root with more content than it shows (whose visibility is not checked), or, when there
  is no candidate at all, the document's root element. With no candidate at all the
  result is always the root element.
\<close>

theorem locate_result_cases:
  fixes doc :: document
  defines "r \<equiv> findScrollableElement doc"
  shows "((r \<in> set (all_elements doc) \<and> isScrollable r \<and>
           innerWidth doc * (1 / 2) \<le> clientWidth r \<and>
           innerHeight doc * (1 / 2) \<le> clientHeight r \<and>
           display r \<noteq> ''none'' \<and> visibility r \<noteq> ''hidden'' \<and> opacity r \<noteq> ''0'' \<and>
           rect_width (boundingRect r) \<noteq> 0 \<and> rect_height (boundingRect r) \<noteq> 0 \<and>
           rect_top (boundingRect r) < innerHeight doc \<and> 0 < rect_bottom (boundingRect r) \<and>
           rect_left (boundingRect r) < innerWidth doc \<and> 0 < rect_right (boundingRect r))
          \<or> (scrollingElement doc = Some r \<and> clientHeight r < scrollHeight r)
          \<or> (candidates doc = [] \<and> r = documentElement doc))
         \<and> (candidates doc = [] \<longrightarrow> r = documentElement doc)"
proof (cases "candidates doc = []")
  case True
  then show ?thesis by (simp add: r_def find_fallback)
next
  case False
  then have "r \<in> set (candidates doc)" unfolding r_def by (rule find_in_candidates)
  then have "(r \<in> set (all_elements doc) \<and> is_candidate doc r) \<or>
             (scrollingElement doc = Some r \<and> clientHeight r < scrollHeight r)"
    by (rule candidates_cases)
  moreover have "is_candidate doc r \<Longrightarrow>
      isVisible doc r \<and> isScrollable r \<and>
      innerWidth doc * (1 / 2) \<le> clientWidth r \<and> innerHeight doc * (1 / 2) \<le> clientHeight r"
    by (simp add: is_candidate_def split: if_splits)
  ultimately show ?thesis using False by (auto simp: isVisible_iff)
qed

theorem locate_result_cases_witness:
  "findScrollableElement doc_two_scrollers \<in> set (all_elements doc_two_scrollers) \<and>
   isScrollable (findScrollableElement doc_two_scrollers) \<and>
   display (findScrollableElement doc_two_scrollers) \<noteq> ''none'' \<and>
   rect_height (boundingRect (findScrollableElement doc_two_scrollers)) \<noteq> 0 \<and>
   candidates doc_plain = [] \<and>
   findScrollableElement doc_plain = documentElement doc_plain"
proof -
  have a: "candidates doc_two_scrollers \<noteq> []"
    by (simp add: doc_two_scrollers_def locator_defs)
  have b: "scrollingElement doc_two_scrollers \<noteq> Some (findScrollableElement doc_two_scrollers)"
    by (simp add: doc_two_scrollers_def locator_defs)
  have c: "candidates doc_plain = []"
    by (simp add: doc_plain_def locator_defs)
  show ?thesis
    using a b c locate_result_cases [of doc_two_scrollers] locate_result_cases [of doc_plain]
    by blast
qed

text \<open>
  C2: when there are candidates, the locator returns the first one, in enumeration order,
  among those of largest content length (a descending stable sort, then the head); of two
  candidates with content lengths 1000 and 5000 it returns the latter; the native
  scrolling root is appended after the enumerated survivors, and only when its content
  length exceeds its visible length, so that it loses every tie against a survivor.
\<close>

theorem locate_largest_first:
  fixes doc :: document
  defines "cs \<equiv> candidates doc" and "r \<equiv> findScrollableElement doc"
  shows "(cs \<noteq> [] \<longrightarrow> (\<exists>i. first_largest cs i \<and> r = cs ! i)) \<and>
         (\<forall>a b. (cs = [a, b] \<or> cs = [b, a]) \<and> scrollHeight a = 1000 \<and> scrollHeight b = 5000
                 \<longrightarrow> r = b) \<and>
         (\<forall>s. scrollingElement doc = Some s \<and> clientHeight s < scrollHeight s
                 \<longrightarrow> cs = filtered_candidates doc @ [s]) \<and>
         (\<forall>s. scrollingElement doc = Some s \<and> \<not> clientHeight s < scrollHeight s
                 \<longrightarrow> cs = filtered_candidates doc) \<and>
         (scrollingElement doc = None \<longrightarrow> cs = filtered_candidates doc) \<and>
         (\<forall>c \<in> set (filtered_candidates doc).
             (\<forall>s. scrollingElement doc = Some s \<longrightarrow> scrollHeight s \<le> scrollHeight c)
               \<longrightarrow> r \<in> set (filtered_candidates doc))"
proof -
  have first: "\<exists>i. first_largest cs i \<and> r = cs ! i" if "cs \<noteq> []"
    using that hd_array_sort_first_largest [of cs] find_hd [of doc]
    by (simp add: cs_def r_def)
  have two: "r = b"
    if "cs = [a, b] \<or> cs = [b, a]" "scrollHeight a = 1000" "scrollHeight b = 5000" for a b
  proof -
    from that have "array_sort compare_candidates cs = [b, a]"
      by (auto simp: compare_candidates_def)
    then show ?thesis by (simp add: r_def cs_def findScrollableElement_def)
  qed
  have shape: "cs = filtered_candidates doc @
                 (case scrollingElement doc of None \<Rightarrow> []
                  | Some s \<Rightarrow> if clientHeight s < scrollHeight s then [s] else [])"
    by (simp add: cs_def candidates_def)
  have low: "r \<in> set (filtered_candidates doc)"
    if c: "c \<in> set (filtered_candidates doc)"
      and le: "\<forall>s. scrollingElement doc = Some s \<longrightarrow> scrollHeight s \<le> scrollHeight c" for c
  proof -
    let ?f = "filtered_candidates doc"
    from c have "cs \<noteq> []" by (auto simp: shape)
    with first obtain i where fl: "first_largest cs i" and r: "r = cs ! i" by blast
    show ?thesis
    proof (cases "i < length ?f")
      case True
      then show ?thesis by (simp add: r shape nth_append)
    next
      case False
      from fl have ilt: "i < length cs" by (simp add: first_largest_def)
      with False obtain s where s: "scrollingElement doc = Some s" "cs = ?f @ [s]"
        by (auto simp: shape split: option.splits if_splits)
      with ilt False have i: "i = length ?f" by simp
      from c obtain j where j: "j < length ?f" "?f ! j = c"
        by (auto simp: in_set_conv_nth)
      with fl i have "scrollHeight (cs ! j) < scrollHeight (cs ! i)"
        by (simp add: first_largest_def)
      with j i s have "scrollHeight c < scrollHeight s" by (simp add: nth_append)
      with le s show ?thesis by force
    qed
  qed
  show ?thesis using first two low by (auto simp: shape)
qed

theorem locate_largest_first_witness:
  "candidates doc_two_scrollers \<noteq> [] \<and>
   scrollHeight (findScrollableElement doc_two_scrollers) = 5000 \<and>
   findScrollableElement doc_two_scrollers = block_element 2 ''auto'' 5000 500 on_screen \<and>
   findScrollableElement doc_tie = block_element 1 ''auto'' 5000 500 on_screen \<and>
   findScrollableElement doc_tie \<in> set (filtered_candidates doc_tie)"
proof -
  have a: "candidates doc_two_scrollers =
           [block_element 1 ''auto'' 1000 500 on_screen, block_element 2 ''auto'' 5000 500 on_screen]"
    by (simp add: doc_two_scrollers_def locator_defs)
  have b: "scrollHeight (block_element 1 ''auto'' 1000 500 on_screen) = 1000"
          "scrollHeight (block_element 2 ''auto'' 5000 500 on_screen) = 5000"
    by (simp_all add: block_element_def)
  have t: "filtered_candidates doc_tie =
           [block_element 1 ''auto'' 5000 500 on_screen, block_element 2 ''scroll'' 5000 500 on_screen]"
          "scrollingElement doc_tie = Some (block_element 0 ''visible'' 5000 768 on_screen)"
    by (simp_all add: doc_tie_def locator_defs)
  have t1: "findScrollableElement doc_tie \<in> set (filtered_candidates doc_tie)"
    using locate_largest_first [of doc_tie] t by (simp add: block_element_def)
  obtain i where i: "first_largest (candidates doc_tie) i"
      "findScrollableElement doc_tie = candidates doc_tie ! i"
    using locate_largest_first [of doc_tie] t by (auto simp: candidates_def)
  have "i = 0"
  proof (rule ccontr)
    assume "i \<noteq> 0"
    then have "scrollHeight (candidates doc_tie ! 0) < scrollHeight (candidates doc_tie ! i)"
      using i by (simp add: first_largest_def)
    moreover have "i < 3" using i t by (simp add: first_largest_def candidates_def block_element_def)
    ultimately show False using t
      by (auto simp: candidates_def block_element_def nth_append less_Suc_eq numeral_3_eq_3 nth_Cons')
  qed
  with i t have t2: "findScrollableElement doc_tie = block_element 1 ''auto'' 5000 500 on_screen"
    by (simp add: candidates_def)
  from a b locate_largest_first [of doc_two_scrollers]
  have "findScrollableElement doc_two_scrollers = block_element 2 ''auto'' 5000 500 on_screen"
    by blast
  with a b t1 t2 show ?thesis by simp
qed

subsection \<open>The capture loop\<close>

lemmas loop_defs = captureLoop.simps captureStep_def actual_offset_def captured_url_def progress_percent_def
  math_round_def finishCapture_def initial_state_def page_metrics_def OVERLAP_def MAX_STEPS_def
  Let_def

lemma capture_requests_append [simp]:
  "capture_requests (xs @ ys) = capture_requests xs + capture_requests ys"
  by (simp add: capture_requests_def)

lemma scroll_requests_append [simp]:
  "scroll_requests (xs @ ys) = scroll_requests xs @ scroll_requests ys"
  by (simp add: scroll_requests_def)

lemma capture_requests_finishCapture [simp]: "capture_requests (finishCapture env s) = 0"
  by (simp add: capture_requests_def finishCapture_def)

lemma scroll_requests_finishCapture [simp]: "scroll_requests (finishCapture env s) = []"
  by (simp add: scroll_requests_def finishCapture_def)

text \<open>What one run of the loop body does to the step counter and to the outside world.\<close>

lemma captureStep_at_limit:
  "MAX_STEPS \<le> steps state \<Longrightarrow> captureStep env state = Finish [] StepLimit state"
  by (simp add: captureStep_def)

lemma captureStep_steps:
  "steps state < MAX_STEPS \<Longrightarrow> steps (step_state (captureStep env state)) = Suc (steps state)"
  by (simp add: captureStep_def Let_def split: option.splits)

lemma captureStep_requests:
  "steps state < MAX_STEPS \<Longrightarrow>
   capture_requests (step_events (captureStep env state)) = 1 \<and>
   scroll_requests (step_events (captureStep env state)) = [currentY state]"
  by (simp add: captureStep_def Let_def capture_requests_def scroll_requests_def
      split: option.splits)

lemma captureStep_Continue:
  assumes "captureStep env state = Continue evs state'"
  shows "steps state < MAX_STEPS" and "steps state' = Suc (steps state)"
    and "capture_requests evs = 1" and "scroll_requests evs = [currentY state]"
proof -
  show lt: "steps state < MAX_STEPS"
    using assms by (cases "steps state < MAX_STEPS") (simp_all add: captureStep_def)
  show "steps state' = Suc (steps state)"
    using captureStep_steps [OF lt, of env] assms by simp
  show "capture_requests evs = 1" "scroll_requests evs = [currentY state]"
    using captureStep_requests [OF lt, of env] assms by simp_all
qed

lemma captureStep_Finish_requests:
  assumes "captureStep env state = Finish evs r state'"
  shows "capture_requests evs \<le> MAX_STEPS - steps state"
    and "length (scroll_requests evs) \<le> MAX_STEPS - steps state"
    and "steps state' \<le> max MAX_STEPS (steps state)"
proof -
  consider "MAX_STEPS \<le> steps state" | "steps state < MAX_STEPS" by linarith
  then have "capture_requests evs \<le> MAX_STEPS - steps state \<and>
             length (scroll_requests evs) \<le> MAX_STEPS - steps state \<and>
             steps state' \<le> max MAX_STEPS (steps state)"
  proof cases
    case 1
    with assms show ?thesis
      by (simp add: captureStep_at_limit capture_requests_def scroll_requests_def)
  next
    case 2
    with assms captureStep_requests [OF 2, of env] captureStep_steps [OF 2, of env]
    show ?thesis by simp
  qed
  then show "capture_requests evs \<le> MAX_STEPS - steps state"
    and "length (scroll_requests evs) \<le> MAX_STEPS - steps state"
    and "steps state' \<le> max MAX_STEPS (steps state)" by simp_all
qed

lemma captureLoop_Finish:
  "captureStep env state = Finish evs r state' \<Longrightarrow>
   captureLoop env state = \<lparr> events = evs @ finishCapture env state', reason = r, final = state' \<rparr>"
  by (subst captureLoop.simps) simp

lemma captureLoop_Continue:
  "captureStep env state = Continue evs state' \<Longrightarrow>
   captureLoop env state = (captureLoop env state')\<lparr>events := evs @ events (captureLoop env state')\<rparr>"
  by (subst captureLoop.simps) (simp add: Let_def)

lemma captureLoop_bounds:
  "capture_requests (events (captureLoop env state)) \<le> MAX_STEPS - steps state \<and>
   length (scroll_requests (events (captureLoop env state))) \<le> MAX_STEPS - steps state \<and>
   steps (final (captureLoop env state)) \<le> max MAX_STEPS (steps state)"
proof (induction env state rule: captureLoop.induct)
  case (1 env state)
  show ?case
  proof (cases "captureStep env state")
    case (Finish evs r state')
    then show ?thesis
      using captureStep_Finish_requests [OF Finish] by (simp add: captureLoop_Finish)
  next
    case (Continue evs state')
    note c = captureStep_Continue [OF Continue]
    from "1.IH" [OF Continue] c show ?thesis
      by (simp add: captureLoop_Continue [OF Continue]; linarith)
  qed
qed

text \<open>
  C3: a session performs at most \<open>MAX_STEPS = 50\<close> scroll requests and captures. When the
  counter has reached the limit the loop finishes at once, without a scroll or a capture;
  otherwise the body increments the counter. The loop is a total function: it ends for
  every state and every behaviour of the page.
\<close>

theorem capture_loop_step_limit:
  "capture_requests (events (captureLoop env (initial_state m))) \<le> 50 \<and>
   length (scroll_requests (events (captureLoop env (initial_state m)))) \<le> 50 \<and>
   steps (final (captureLoop env (initial_state m))) \<le> 50 \<and>
   capture_requests (events (captureLoop env state)) \<le> MAX_STEPS - steps state \<and>
   length (scroll_requests (events (captureLoop env state))) \<le> MAX_STEPS - steps state \<and>
   (MAX_STEPS \<le> steps state \<longrightarrow>
      captureLoop env state =
        \<lparr> events = finishCapture env state, reason = StepLimit, final = state \<rparr> \<and>
      capture_requests (events (captureLoop env state)) = 0 \<and>
      scroll_requests (events (captureLoop env state)) = []) \<and>
   (steps state < MAX_STEPS \<longrightarrow>
      steps (step_state (captureStep env state)) = steps state + 1)"
proof -
  have init: "steps (initial_state m) = 0"
    by (simp add: initial_state_def)
  have fifty: "MAX_STEPS = 50"
    by (simp add: MAX_STEPS_def)
  have limit: "captureLoop env state =
        \<lparr> events = finishCapture env state, reason = StepLimit, final = state \<rparr>"
    if "MAX_STEPS \<le> steps state"
    using that by (simp add: captureStep_at_limit captureLoop_Finish)
  show ?thesis
    using captureLoop_bounds [of env "initial_state m"] captureLoop_bounds [of env state]
      init fifty limit captureStep_steps [of state env]
    by auto
qed

theorem capture_loop_step_limit_witness:
  "capture_requests (events (captureLoop env_scrolling (initial_state page_metrics))) = 5 \<and>
   (5::nat) \<le> 50 \<and>
   steps (initial_state page_metrics) < MAX_STEPS \<and>
   steps (step_state (captureStep env_scrolling (initial_state page_metrics))) = 1 \<and>
   MAX_STEPS \<le> steps ((initial_state page_metrics)\<lparr>steps := 50\<rparr>) \<and>
   reason (captureLoop env_scrolling ((initial_state page_metrics)\<lparr>steps := 50\<rparr>)) = StepLimit"
proof -
  have a: "steps (initial_state page_metrics) < MAX_STEPS"
    by (simp add: initial_state_def MAX_STEPS_def)
  have b: "MAX_STEPS \<le> steps ((initial_state page_metrics)\<lparr>steps := 50\<rparr>)"
    by (simp add: MAX_STEPS_def)
  have c: "capture_requests (events (captureLoop env_scrolling (initial_state page_metrics))) = 5"
    by (simp add: loop_defs env_scrolling_def capture_requests_def)
  have d: "steps (initial_state page_metrics) = 0"
    by (simp add: initial_state_def)
  have e: "steps (step_state (captureStep env_scrolling (initial_state page_metrics))) = 1"
    using a d capture_loop_step_limit [of env_scrolling page_metrics "initial_state page_metrics"]
    by simp
  have f: "reason (captureLoop env_scrolling ((initial_state page_metrics)\<lparr>steps := 50\<rparr>)) = StepLimit"
    using b capture_loop_step_limit
      [of env_scrolling page_metrics "(initial_state page_metrics)\<lparr>steps := 50\<rparr>"]
    by (simp add: MAX_STEPS_def)
  from a b c e f show ?thesis by simp
qed

text \<open>
  C4: a step that is run with \<open>prevY\<close> defined and that reaches the offset \<open>prevY\<close> again
  ends the session: the body calls \<open>finishCapture\<close> (through the stuck check, or earlier
  through a failed capture), and the only scroll request issued from that step on is the
  step's own.
\<close>

theorem stuck_step_finishes:
  assumes "prevY state = Some p"
    and "steps state < MAX_STEPS"
    and "actual_offset (scroll_reply env (Suc (steps state)) (currentY state)) (currentY state) = p"
  shows "(finished (captureStep env state) = Some Stuck \<or>
          finished (captureStep env state) = Some CaptureFailed) \<and>
         (captured_url (capture_reply env (Suc (steps state))) \<noteq> None \<longrightarrow>
            reason (captureLoop env state) = Stuck) \<and>
         events (captureLoop env state) =
           step_events (captureStep env state) @
           finishCapture env (step_state (captureStep env state)) \<and>
         scroll_requests (events (captureLoop env state)) = [currentY state]"
proof -
  let ?cap = "captured_url (capture_reply env (Suc (steps state)))"
  have f: "finished (captureStep env state) =
             (if ?cap = None then Some CaptureFailed else Some Stuck)"
    using assms by (simp add: captureStep_def Let_def split: option.splits)
  then obtain evs r state' where fin: "captureStep env state = Finish evs r state'"
    and r: "r = Stuck \<or> r = CaptureFailed" "?cap \<noteq> None \<longrightarrow> r = Stuck"
    by (cases "captureStep env state") (auto split: if_splits)
  have "scroll_requests evs = [currentY state]"
    using captureStep_requests [OF assms(2), of env] fin by simp
  with fin r show ?thesis
    by (auto simp: captureLoop_Finish)
qed

theorem stuck_step_finishes_witness:
  "prevY ((initial_state page_metrics)\<lparr>prevY := Some 420, currentY := 840, steps := 2\<rparr>) = Some 420 \<and>
   actual_offset (scroll_reply env_stuck 3 840) 840 = 420 \<and>
   reason (captureLoop env_stuck
            ((initial_state page_metrics)\<lparr>prevY := Some 420, currentY := 840, steps := 2\<rparr>)) = Stuck \<and>
   scroll_requests (events (captureLoop env_stuck
            ((initial_state page_metrics)\<lparr>prevY := Some 420, currentY := 840, steps := 2\<rparr>))) = [840]"
proof -
  let ?s = "(initial_state page_metrics)\<lparr>prevY := Some 420, currentY := 840, steps := 2\<rparr>"
  have a: "prevY ?s = Some 420" by simp
  have b: "steps ?s < MAX_STEPS" by (simp add: MAX_STEPS_def)
  have c: "actual_offset (scroll_reply env_stuck (Suc (steps ?s)) (currentY ?s)) (currentY ?s) = 420"
    by (simp add: env_stuck_def actual_offset_def)
  have d: "captured_url (capture_reply env_stuck (Suc (steps ?s))) \<noteq> None"
    by (simp add: env_stuck_def captured_url_def)
  have e: "actual_offset (scroll_reply env_stuck 3 840) 840 = 420"
    by (simp add: env_stuck_def actual_offset_def)
  note t = stuck_step_finishes [OF a b c]
  from t d have r: "reason (captureLoop env_stuck ?s) = Stuck"
    by blast
  from t have "scroll_requests (events (captureLoop env_stuck ?s)) = [currentY ?s]"
    by blast
  then have q: "scroll_requests (events (captureLoop env_stuck ?s)) = [840]"
    by simp
  from a e r q show ?thesis by simp
qed

text \<open>
  C9: when the reply to \<open>SCROLL_TO\<close> is missing, or has no \<open>actualY\<close>, the requested
  offset \<open>currentY\<close> is taken as the actual offset and the step goes on: the capture is
  requested, a captured frame is stored at \<open>currentY\<close>, and the step does exactly what it
  would have done had the page reported the requested offset. In particular it goes on
  to the next step whenever the capture succeeds, the offset differs from \<open>prevY\<close> and the
  bottom is not reached.
\<close>

theorem missing_scroll_reply_uses_requested_offset:
  assumes "steps state < MAX_STEPS"
    and "scroll_reply env (Suc (steps state)) (currentY state) = None \<or>
         (\<exists>r. scroll_reply env (Suc (steps state)) (currentY state) = Some r \<and>
              resp_actualY r = None)"
  shows "actual_offset (scroll_reply env (Suc (steps state)) (currentY state)) (currentY state)
           = currentY state \<and>
         captureStep env state =
           captureStep (env\<lparr>scroll_reply := \<lambda>n y. Some \<lparr>resp_actualY = Some y\<rparr>\<rparr>) state \<and>
         take 2 (step_events (captureStep env state)) =
           [SendScrollTo (currentY state), CaptureVisibleTab] \<and>
         (\<forall>url. captured_url (capture_reply env (Suc (steps state))) = Some url \<longrightarrow>
            images (step_state (captureStep env state)) =
              images state @ [\<lparr>frame_y = currentY state, frame_dataUrl = url\<rparr>]) \<and>
         (\<forall>url. captured_url (capture_reply env (Suc (steps state))) = Some url \<and>
                prevY state \<noteq> Some (currentY state) \<and>
                currentY state + visibleHeight state < fullHeight state \<longrightarrow>
            finished (captureStep env state) = None)"
proof -
  have off: "actual_offset (scroll_reply env (Suc (steps state)) (currentY state)) (currentY state)
           = currentY state"
    using assms(2) by (auto simp: actual_offset_def)
  have same: "captureStep env state =
           captureStep (env\<lparr>scroll_reply := \<lambda>n y. Some \<lparr>resp_actualY = Some y\<rparr>\<rparr>) state"
  proof -
    have "actual_offset (Some \<lparr>resp_actualY = Some (currentY state)\<rparr>) (currentY state)
            = currentY state"
      by (simp add: actual_offset_def)
    with assms(1) off show ?thesis
      by (simp add: captureStep_def Let_def split: option.splits)
  qed
  have evs: "take 2 (step_events (captureStep env state)) =
           [SendScrollTo (currentY state), CaptureVisibleTab]"
    using assms(1) by (simp add: captureStep_def Let_def split: option.splits)
  have img: "images (step_state (captureStep env state)) =
              images state @ [\<lparr>frame_y = currentY state, frame_dataUrl = url\<rparr>]"
    if "captured_url (capture_reply env (Suc (steps state))) = Some url" for url
    using assms(1) off that by (simp add: captureStep_def Let_def)
  have cont: "finished (captureStep env state) = None"
    if "captured_url (capture_reply env (Suc (steps state))) = Some url"
      "prevY state \<noteq> Some (currentY state)"
      "currentY state + visibleHeight state < fullHeight state" for url
    using assms(1) off that by (auto simp: captureStep_def Let_def)
  from off same evs img cont show ?thesis by blast
qed

theorem missing_scroll_reply_uses_requested_offset_witness:
  "scroll_reply env_silent (Suc (steps (initial_state page_metrics)))
      (currentY (initial_state page_metrics)) = None \<and>
   finished (captureStep env_silent (initial_state page_metrics)) = None \<and>
   images (step_state (captureStep env_silent (initial_state page_metrics))) =
     [\<lparr>frame_y = 0, frame_dataUrl = ''data:image/png''\<rparr>]"
proof -
  let ?s = "initial_state page_metrics"
  have a: "steps ?s < MAX_STEPS" by (simp add: initial_state_def MAX_STEPS_def)
  have b: "scroll_reply env_silent (Suc (steps ?s)) (currentY ?s) = None"
    by (simp add: env_silent_def)
  have c: "captured_url (capture_reply env_silent (Suc (steps ?s))) = Some ''data:image/png''"
    by (simp add: env_silent_def captured_url_def)
  have d: "prevY ?s \<noteq> Some (currentY ?s)" "currentY ?s + visibleHeight ?s < fullHeight ?s"
    "images ?s = []" "currentY ?s = 0"
    by (simp_all add: initial_state_def page_metrics_def)
  note t = missing_scroll_reply_uses_requested_offset [OF a disjI1 [OF b]]
  from t c d(1,2) have f: "finished (captureStep env_silent ?s) = None"
    by blast
  from t c have "images (step_state (captureStep env_silent ?s)) =
      images ?s @ [\<lparr>frame_y = currentY ?s, frame_dataUrl = ''data:image/png''\<rparr>]"
    by blast
  with d(3,4) have i: "images (step_state (captureStep env_silent ?s)) =
      [\<lparr>frame_y = 0, frame_dataUrl = ''data:image/png''\<rparr>]"
    by simp
  from b f i show ?thesis by simp
qed

text \<open>
  Whenever \<open>prevY\<close> is defined, it is the offset of the frame stored last. This holds
  in the state made by \<open>startCapture\<close> and is kept by every run of the loop body.
\<close>

lemma captureStep_keeps_prev_frame:
  assumes "\<forall>p. prevY state = Some p \<longrightarrow> images state \<noteq> [] \<and> frame_y (last (images state)) = p"
    and "captureStep env state = Continue evs state'"
  shows "\<forall>p. prevY state' = Some p \<longrightarrow> images state' \<noteq> [] \<and> frame_y (last (images state')) = p"
  using assms(2) by (auto simp: captureStep_def Let_def split: if_splits option.splits)

lemma captureStep_Stuck_frames:
  assumes "\<forall>p. prevY state = Some p \<longrightarrow> images state \<noteq> [] \<and> frame_y (last (images state)) = p"
    and "captureStep env state = Finish evs Stuck state'"
  shows "\<exists>fs a b. images state' = fs @ [a, b] \<and> frame_y a = frame_y b"
proof -
  from assms(2) obtain p url where p: "prevY state = Some p"
    and im: "images state' = images state @ [\<lparr>frame_y = p, frame_dataUrl = url\<rparr>]"
    by (auto simp: captureStep_def Let_def split: if_splits option.splits)
  with assms(1) have ne: "images state \<noteq> []" and l: "frame_y (last (images state)) = p"
    by simp_all
  from ne have "images state = butlast (images state) @ [last (images state)]"
    by simp
  with im have "images state' =
      butlast (images state) @ [last (images state), \<lparr>frame_y = p, frame_dataUrl = url\<rparr>]"
    by simp
  with l show ?thesis by force
qed

lemma captureLoop_Stuck_frames:
  "(\<forall>p. prevY state = Some p \<longrightarrow> images state \<noteq> [] \<and> frame_y (last (images state)) = p) \<Longrightarrow>
   reason (captureLoop env state) = Stuck \<Longrightarrow>
   \<exists>fs a b. images (final (captureLoop env state)) = fs @ [a, b] \<and> frame_y a = frame_y b"
proof (induction env state rule: captureLoop.induct)
  case (1 env state)
  show ?case
  proof (cases "captureStep env state")
    case (Finish evs r state')
    with "1.prems"(2) have "r = Stuck" by (simp add: captureLoop_Finish)
    with Finish captureStep_Stuck_frames [OF "1.prems"(1)] show ?thesis
      by (simp add: captureLoop_Finish)
  next
    case (Continue evs state')
    from "1.prems"(2) have "reason (captureLoop env state') = Stuck"
      by (simp add: captureLoop_Continue [OF Continue])
    with "1.IH" [OF Continue captureStep_keeps_prev_frame [OF "1.prems"(1) Continue]]
    show ?thesis by (simp add: captureLoop_Continue [OF Continue])
  qed
qed

text \<open>Every session ends with \<open>finishCapture\<close> on its final state.\<close>

lemma captureLoop_ends_with_finishCapture:
  "\<exists>pre. events (captureLoop env state) = pre @ finishCapture env (final (captureLoop env state))"
proof (induction env state rule: captureLoop.induct)
  case (1 env state)
  show ?case
  proof (cases "captureStep env state")
    case (Finish evs r state')
    then show ?thesis by (simp add: captureLoop_Finish)
  next
    case (Continue evs state')
    from "1.IH" [OF Continue] obtain pre where
      "events (captureLoop env state') = pre @ finishCapture env (final (captureLoop env state'))"
      by blast
    then have "events (captureLoop env state) =
        (evs @ pre) @ finishCapture env (final (captureLoop env state))"
      by (simp add: captureLoop_Continue [OF Continue])
    then show ?thesis by blast
  qed
qed

lemma captureStep_originalScrollY:
  "originalScrollY (step_state (captureStep env state)) = originalScrollY state"
  by (simp add: captureStep_def Let_def split: option.splits)

lemma captureLoop_originalScrollY:
  "originalScrollY (final (captureLoop env state)) = originalScrollY state"
proof (induction env state rule: captureLoop.induct)
  case (1 env state)
  show ?case
  proof (cases "captureStep env state")
    case (Finish evs r state')
    with captureStep_originalScrollY [of env state] show ?thesis
      by (simp add: captureLoop_Finish)
  next
    case (Continue evs state')
    with "1.IH" [OF Continue] captureStep_originalScrollY [of env state] show ?thesis
      by (simp add: captureLoop_Continue [OF Continue])
  qed
qed

text \<open>
  C10: a session that ends through the stuck check has stored the frame of the repeated
  offset before the check: its final frame list ends with two frames of equal offset, and
  this list, duplicates included, is the one written to storage for the result page.
\<close>

theorem stuck_session_keeps_duplicate_frame:
  assumes "reason (captureLoop env (initial_state m)) = Stuck"
  shows "\<exists>fs a b.
           images (final (captureLoop env (initial_state m))) = fs @ [a, b] \<and>
           frame_y a = frame_y b \<and>
           StorageSet (final (captureLoop env (initial_state m)))
             \<in> set (events (captureLoop env (initial_state m))) \<and>
           cd_images (stored (final (captureLoop env (initial_state m)))) = Some (fs @ [a, b])"
proof -
  let ?out = "captureLoop env (initial_state m)"
  have "\<forall>p. prevY (initial_state m) = Some p \<longrightarrow>
          images (initial_state m) \<noteq> [] \<and> frame_y (last (images (initial_state m))) = p"
    by (simp add: initial_state_def)
  from captureLoop_Stuck_frames [OF this assms] obtain fs a b
    where im: "images (final ?out) = fs @ [a, b]" "frame_y a = frame_y b" by blast
  from captureLoop_ends_with_finishCapture [of env "initial_state m"]
  have "StorageSet (final ?out) \<in> set (events ?out)"
    by (auto simp: finishCapture_def)
  with im show ?thesis by (auto simp: stored_def)
qed

theorem stuck_session_keeps_duplicate_frame_witness:
  "reason (captureLoop env_stuck (initial_state page_metrics)) = Stuck \<and>
   map frame_y (images (final (captureLoop env_stuck (initial_state page_metrics)))) = [0, 420, 420] \<and>
   (\<exists>fs a b. images (final (captureLoop env_stuck (initial_state page_metrics))) = fs @ [a, b] \<and>
      frame_y a = frame_y b)"
proof -
  have a: "reason (captureLoop env_stuck (initial_state page_metrics)) = Stuck"
    by (simp add: loop_defs env_stuck_def)
  have b: "map frame_y (images (final (captureLoop env_stuck (initial_state page_metrics)))) = [0, 420, 420]"
    by (simp add: loop_defs env_stuck_def)
  from stuck_session_keeps_duplicate_frame [OF a] a b show ?thesis by blast
qed

subsection \<open>The stitcher\<close>

lemmas render_defs = render_def or_default_def loadImage_def forEach_indexed_def draw_item_def
  canvas_height_def canvas_width_def draw_calls_def decode_example_def cropped_draw_def Let_def



lemma no_draw_in_status [simp]:
  "filter is_draw (map (\<lambda>i. UpdateStatus (g i)) xs) = []"
  by (induction xs) auto

lemma fold_assign_height_status [simp]:
  "fold assign_height (map (\<lambda>i. UpdateStatus (g i)) xs) a = a"
  by (induction xs) auto

lemma fold_assign_width_status [simp]:
  "fold assign_width (map (\<lambda>i. UpdateStatus (g i)) xs) a = a"
  by (induction xs) auto













text \<open>
  C8: when storage holds no captured data, or the data has no \<open>images\<close>, or \<open>images\<close>
  is empty, the handler shows \<open>'No data found in storage.'\<close> and returns: the canvas gets
  no width and no height, and nothing is drawn.
\<close>

theorem empty_frames_no_data:
  "render decode None = [UpdateStatus LoadingCapturedData, UpdateStatus NoDataFound] \<and>
   render decode (Some (state\<lparr>cd_images := None\<rparr>)) =
     [UpdateStatus LoadingCapturedData, UpdateStatus NoDataFound] \<and>
   render decode (Some (state\<lparr>cd_images := Some []\<rparr>)) =
     [UpdateStatus LoadingCapturedData, UpdateStatus NoDataFound] \<and>
   canvas_width [UpdateStatus LoadingCapturedData, UpdateStatus NoDataFound] = None \<and>
   canvas_height [UpdateStatus LoadingCapturedData, UpdateStatus NoDataFound] = None \<and>
   draw_calls [UpdateStatus LoadingCapturedData, UpdateStatus NoDataFound] = []"
  by (simp add: render_def canvas_width_def canvas_height_def draw_calls_def)

theorem empty_frames_no_data_witness:
  "render decode_example (Some data_no_frames) =
     [UpdateStatus LoadingCapturedData, UpdateStatus NoDataFound] \<and>
   canvas_height (render decode_example (Some data_no_frames)) = None \<and>
   draw_calls (render decode_example (Some data_no_frames)) = []"
proof -
  have "data_no_frames = data_no_frames\<lparr>cd_images := Some []\<rparr>"
    by (simp add: data_no_frames_def)
  with empty_frames_no_data [of decode_example data_no_frames]
  have "render decode_example (Some data_no_frames) =
     [UpdateStatus LoadingCapturedData, UpdateStatus NoDataFound]"
    by simp
  with empty_frames_no_data [of decode_example data_no_frames] show ?thesis
    by simp
qed

subsection \<open>Preparing and restoring the page\<close>

lemmas agent_defs = prepared_def prepared_then_restored_def initCapture_def restorePage_def
  createProgressBar_def removeProgressBar_def hideFixedElements_def hide_if_fixed_def
  set_overflow_def set_visibility_def set_scrollTop_def window_scrollTo_def update_node_def
  clamp_scroll_def root_node_def fresh_node_def progress_bar_id_def agent0_def plain_node_def

text \<open>Every session, however it ends, sends \<open>RESTORE\<close> with the offset recorded at its start.\<close>

lemma captureLoop_sends_restore:
  "SendRestore (originalScrollY state) \<in> set (events (captureLoop env state))"
proof -
  from captureLoop_ends_with_finishCapture [of env state] obtain pre where
    "events (captureLoop env state) = pre @ finishCapture env (final (captureLoop env state))"
    by blast
  then show ?thesis
    by (simp add: finishCapture_def captureLoop_originalScrollY)
qed

text \<open>Replaying the recorded styles writes each recorded visibility back to its element.\<close>

lemma replay_visibility:
  "distinct (map fst m) \<Longrightarrow>
   fold (\<lambda>(el, styles). set_visibility el (saved_visibility styles)) m pg =
   pg\<lparr>node_of := \<lambda>n. case map_of m n of
                         None \<Rightarrow> node_of pg n
                       | Some st \<Rightarrow> (node_of pg n)\<lparr>style_visibility := saved_visibility st\<rparr>\<rparr>"
proof (induction m arbitrary: pg)
  case Nil
  then show ?case by simp
next
  case (Cons x m)
  obtain el st where x: "x = (el, st)" by (cases x)
  from Cons.prems x have notin: "map_of m el = None" and d: "distinct (map fst m)"
    by (simp_all add: map_of_eq_None_iff)
  have "(\<lambda>n. case map_of m n of
                None \<Rightarrow> node_of (set_visibility el (saved_visibility st) pg) n
              | Some st' \<Rightarrow> (node_of (set_visibility el (saved_visibility st) pg) n)
                              \<lparr>style_visibility := saved_visibility st'\<rparr>) =
        (\<lambda>n. case map_of (x # m) n of
                None \<Rightarrow> node_of pg n
              | Some st' \<Rightarrow> (node_of pg n)\<lparr>style_visibility := saved_visibility st'\<rparr>)"
    using notin x by (auto simp: fun_eq_iff set_visibility_def update_node_def split: option.splits)
  with Cons.IH [OF d, of "set_visibility el (saved_visibility st) pg"] x show ?case
    by (simp add: set_visibility_def update_node_def)
qed

lemma replay_frame:
  "dom (fold (\<lambda>(el, styles). set_visibility el (saved_visibility styles)) m pg) = dom pg \<and>
   view (fold (\<lambda>(el, styles). set_visibility el (saved_visibility styles)) m pg) = view pg \<and>
   window_scrollY (fold (\<lambda>(el, styles). set_visibility el (saved_visibility styles)) m pg)
     = window_scrollY pg \<and>
   window_scrollMaxY (fold (\<lambda>(el, styles). set_visibility el (saved_visibility styles)) m pg)
     = window_scrollMaxY pg \<and>
   style_overflow (node_of (fold (\<lambda>(el, styles). set_visibility el (saved_visibility styles)) m pg) n)
     = style_overflow (node_of pg n) \<and>
   scrollTop (node_of (fold (\<lambda>(el, styles). set_visibility el (saved_visibility styles)) m pg) n)
     = scrollTop (node_of pg n) \<and>
   scrollTopMax (node_of (fold (\<lambda>(el, styles). set_visibility el (saved_visibility styles)) m pg) n)
     = scrollTopMax (node_of pg n)"
proof (induction m arbitrary: pg)
  case Nil
  then show ?case by simp
next
  case (Cons x m)
  obtain el st where x: "x = (el, st)" by (cases x)
  show ?case
    using Cons.IH [of "set_visibility el (saved_visibility st) pg"] x
    by (simp add: set_visibility_def update_node_def)
qed

text \<open>
  What \<open>restorePage\<close> achieves: the map of recorded styles is empty and the progress bar
  is gone; every recorded visibility is back on its element; the inline \<open>overflow\<close> of the
  root and of the container is the empty string; and the container is at the saved
  offset, as far as the browser lets it go there.
\<close>

lemma restorePage_agent:
  "originalStyles (fst (restorePage y ag pg)) = [] \<and>
   progressBarContainer (fst (restorePage y ag pg)) = None \<and>
   (\<forall>c. progressBarContainer ag = Some c \<longrightarrow> c \<notin> set (dom (snd (restorePage y ag pg))))"
  by (auto simp: restorePage_def removeProgressBar_def Let_def set_overflow_def set_scrollTop_def
      window_scrollTo_def update_node_def replay_frame split: option.splits prod.splits)

lemma removeProgressBar_styles:
  "originalStyles (fst (removeProgressBar ag pg)) = originalStyles ag \<and>
   scrollContainer (fst (removeProgressBar ag pg)) = scrollContainer ag \<and>
   node_of (snd (removeProgressBar ag pg)) = node_of pg \<and>
   view (snd (removeProgressBar ag pg)) = view pg \<and>
   window_scrollMaxY (snd (removeProgressBar ag pg)) = window_scrollMaxY pg"
  by (simp add: removeProgressBar_def split: option.splits)

lemma replay_visibility_at:
  "distinct (map fst m) \<Longrightarrow> (el, st) \<in> set m \<Longrightarrow>
   style_visibility
     (node_of (fold (\<lambda>(el, styles). set_visibility el (saved_visibility styles)) m pg) el)
   = saved_visibility st"
  by (simp add: replay_visibility)

lemma style_visibility_kept:
  "style_visibility (node_of (set_overflow n v pg) k) = style_visibility (node_of pg k)"
  "style_visibility (node_of (set_scrollTop n y pg) k) = style_visibility (node_of pg k)"
  "style_visibility (node_of (window_scrollTo y pg) k) = style_visibility (node_of pg k)"
  by (simp_all add: set_overflow_def set_scrollTop_def window_scrollTo_def update_node_def)

lemma restorePage_visibility:
  assumes "distinct (map fst (originalStyles ag))" and "(el, st) \<in> set (originalStyles ag)"
  shows "style_visibility (node_of (snd (restorePage y ag pg)) el) = saved_visibility st"
proof -
  obtain ag1 pg1 where r: "removeProgressBar ag pg = (ag1, pg1)"
    by (cases "removeProgressBar ag pg")
  with removeProgressBar_styles [of ag pg] have o: "originalStyles ag1 = originalStyles ag"
    by simp
  show ?thesis
    by (simp add: restorePage_def r o Let_def style_visibility_kept
        replay_visibility_at [OF assms] split: option.splits)
qed

lemma restorePage_overflow:
  "style_overflow (node_of (snd (restorePage y ag pg)) (root_node pg)) = [] \<and>
   (\<forall>sc. scrollContainer ag = Some sc \<longrightarrow>
      style_overflow (node_of (snd (restorePage y ag pg)) sc) = [])"
proof -
  obtain ag1 pg1 where r: "removeProgressBar ag pg = (ag1, pg1)"
    by (cases "removeProgressBar ag pg")
  with removeProgressBar_styles [of ag pg]
  have o: "scrollContainer ag1 = scrollContainer ag" "view pg1 = view pg"
    by simp_all
  show ?thesis
    by (auto simp: restorePage_def r o Let_def set_overflow_def set_scrollTop_def
        window_scrollTo_def update_node_def root_node_def replay_frame split: option.splits)
qed

lemma restorePage_scroll:
  assumes "scrollContainer ag = Some sc"
  shows "if sc = root_node pg
         then window_scrollY (snd (restorePage y ag pg)) = clamp_scroll (window_scrollMaxY pg) y
         else scrollTop (node_of (snd (restorePage y ag pg)) sc) =
                clamp_scroll (scrollTopMax (node_of pg sc)) y"
proof -
  obtain ag1 pg1 where r: "removeProgressBar ag pg = (ag1, pg1)"
    by (cases "removeProgressBar ag pg")
  with removeProgressBar_styles [of ag pg]
  have o: "scrollContainer ag1 = scrollContainer ag" "view pg1 = view pg" "node_of pg1 = node_of pg"
    "window_scrollMaxY pg1 = window_scrollMaxY pg"
    by simp_all
  show ?thesis
    using assms
    by (auto simp: restorePage_def r o Let_def set_overflow_def set_scrollTop_def
        window_scrollTo_def update_node_def root_node_def replay_frame
        split: option.splits)
qed

text \<open>
  C7. The session side holds (\<open>captureLoop_sends_restore\<close>), and \<open>restorePage\<close> replays
  the recorded visibilities, empties the map, removes the progress bar and scrolls back.
  The inline \<open>overflow\<close>, however, is not put back: \<open>initCapture\<close> overwrites it with
  \<open>hidden\<close> without recording it, and \<open>restorePage\<close> sets it to the empty string. On a
  page whose scroll container has the inline style \<open>overflow: auto\<close>, that style is lost.
\<close>

theorem restore_loses_inline_overflow:
  "style_overflow (node_of page_inline_overflow 1) = ''auto'' \<and>
   scrollContainer (fst (snd (prepared page_inline_overflow))) = Some 1 \<and>
   style_overflow (node_of (snd (snd (prepared page_inline_overflow))) 1) = ''hidden'' \<and>
   style_overflow (node_of (snd (prepared_then_restored page_inline_overflow)) 1) = [] \<and>
   style_overflow (node_of (snd (prepared_then_restored page_inline_overflow)) 1)
     \<noteq> style_overflow (node_of page_inline_overflow 1) \<and>
   style_visibility (node_of (snd (snd (prepared page_inline_overflow))) 2) = ''hidden'' \<and>
   style_visibility (node_of (snd (prepared_then_restored page_inline_overflow)) 2) = ''visible'' \<and>
   originalStyles (fst (prepared_then_restored page_inline_overflow)) = [] \<and>
   progressBarContainer (fst (prepared_then_restored page_inline_overflow)) = None \<and>
   dom (snd (prepared_then_restored page_inline_overflow)) = dom page_inline_overflow \<and>
   scrollTop (node_of (snd (prepared_then_restored page_inline_overflow)) 1) = 120"
  by (simp add: agent_defs page_inline_overflow_def locator_defs)

text \<open>
  \<open>hideFixedElements\<close> on a list of distinct elements none of which has an entry yet:
  the entries it adds have distinct keys and hold the inline visibility the elements
  had before, and every element without a new entry is left as it was.
\<close>

lemma map_set_new: "k \<notin> fst ` set m \<Longrightarrow> map_set k v m = m @ [(k, v)]"
  by (induction m) auto

lemma fold_hide_if_fixed:
  assumes "distinct xs" and "set xs \<inter> fst ` set (originalStyles ag) = {}"
    and "fold hide_if_fixed xs (ag, pg) = (ag', pg')"
  shows "\<exists>new. originalStyles ag' = originalStyles ag @ new \<and>
               distinct (map fst new) \<and> fst ` set new \<subseteq> set xs \<and>
               (\<forall>(n, st) \<in> set new. saved_visibility st = style_visibility (node_of pg n)) \<and>
               (\<forall>n. n \<notin> fst ` set new \<longrightarrow> node_of pg' n = node_of pg n)"
  using assms
proof (induction xs arbitrary: ag pg)
  case Nil
  then show ?case by simp
next
  case (Cons x xs)
  obtain ag1 pg1 where h: "hide_if_fixed x (ag, pg) = (ag1, pg1)"
    by (cases "hide_if_fixed x (ag, pg)")
  from Cons.prems(2) have xnew: "x \<notin> fst ` set (originalStyles ag)" by auto
  let ?sv = "\<lparr>saved_visibility = style_visibility (node_of pg x),
              saved_position = style_position (node_of pg x)\<rparr>"
  from h xnew have step:
    "(ag1 = ag \<and> pg1 = pg) \<or>
     (originalStyles ag1 = originalStyles ag @ [(x, ?sv)] \<and>
      pg1 = set_visibility x ''hidden'' pg)"
    by (auto simp: hide_if_fixed_def Let_def map_set_new split: if_splits)
  from Cons.prems(3) h have f: "fold hide_if_fixed xs (ag1, pg1) = (ag', pg')" by simp
  from Cons.prems(1) have dx: "distinct xs" and xx: "x \<notin> set xs" by simp_all
  from step show ?case
  proof
    assume same: "ag1 = ag \<and> pg1 = pg"
    with Cons.prems(2) have "set xs \<inter> fst ` set (originalStyles ag1) = {}" by auto
    from Cons.IH [OF dx this f] same show ?thesis
      by (auto simp: subset_insertI2)
  next
    assume hid: "originalStyles ag1 = originalStyles ag @ [(x, ?sv)] \<and>
                 pg1 = set_visibility x ''hidden'' pg"
    with Cons.prems(2) xx have "set xs \<inter> fst ` set (originalStyles ag1) = {}" by auto
    from Cons.IH [OF dx this f] obtain new where new:
      "originalStyles ag' = originalStyles ag1 @ new" "distinct (map fst new)"
      "fst ` set new \<subseteq> set xs"
      "\<forall>(n, st) \<in> set new. saved_visibility st = style_visibility (node_of pg1 n)"
      "\<forall>n. n \<notin> fst ` set new \<longrightarrow> node_of pg' n = node_of pg1 n"
      by blast
    have other: "node_of pg1 n = node_of pg n" if "n \<noteq> x" for n
      using hid that by (simp add: set_visibility_def update_node_def)
    let ?new = "(x, ?sv) # new"
    have 1: "originalStyles ag' = originalStyles ag @ ?new"
      using new(1) hid by simp
    have 2: "distinct (map fst ?new)"
      using new(2,3) xx by auto
    have 3: "fst ` set ?new \<subseteq> set (x # xs)"
      using new(3) by auto
    have 4: "\<forall>(n, st) \<in> set ?new. saved_visibility st = style_visibility (node_of pg n)"
    proof -
      have "saved_visibility st = style_visibility (node_of pg n)" if "(n, st) \<in> set new" for n st
      proof -
        from that new(3) have "n \<in> set xs" by force
        with xx have "n \<noteq> x" by auto
        with new(4) that other show ?thesis by force
      qed
      then show ?thesis by auto
    qed
    have 5: "\<forall>n. n \<notin> fst ` set ?new \<longrightarrow> node_of pg' n = node_of pg n"
      using new(5) other by auto
    from 1 2 3 4 5 show ?thesis by blast
  qed
qed

lemma fold_max_upper: "a \<le> fold max xs a \<and> (\<forall>n \<in> set xs. n \<le> fold max xs (a::nat))"
proof (induction xs arbitrary: a)
  case Nil
  then show ?case by simp
next
  case (Cons x xs)
  from Cons.IH [of "max x a"] show ?case by auto
qed

lemma fresh_node_new: "fresh_node pg \<notin> set (dom pg) \<and> Suc (fresh_node pg) \<notin> set (dom pg)"
  using fold_max_upper [of 0 "dom pg"] by (auto simp: fresh_node_def)

lemma restorePage_visibility_other:
  assumes "el \<notin> fst ` set (originalStyles ag)" and "distinct (map fst (originalStyles ag))"
  shows "style_visibility (node_of (snd (restorePage y ag pg)) el) = style_visibility (node_of pg el)"
proof -
  obtain ag1 pg1 where r: "removeProgressBar ag pg = (ag1, pg1)"
    by (cases "removeProgressBar ag pg")
  with removeProgressBar_styles [of ag pg]
  have o: "originalStyles ag1 = originalStyles ag" "node_of pg1 = node_of pg"
    by simp_all
  from assms(1) have "map_of (originalStyles ag) el = None"
    by (simp add: map_of_eq_None_iff)
  then show ?thesis
    by (simp add: restorePage_def r o Let_def style_visibility_kept
        replay_visibility [OF assms(2)] split: option.splits)
qed

text \<open>
  Preparing a page and then restoring it gives every element of the page the inline
  visibility it had before.
\<close>

lemma initCapture_shape:
  "\<exists>sc ag2 pg2 pg3.
     createProgressBar
       (ag0\<lparr>scrollContainer := Some sc,
             cs_originalScrollY := m_originalScrollY (fst (initCapture ag0 pg0))\<rparr>) pg0
       = (ag2, pg2) \<and>
     hideFixedElements ag2 pg2 = (fst (snd (initCapture ag0 pg0)), pg3) \<and>
     (\<forall>n. style_visibility (node_of (snd (snd (initCapture ag0 pg0))) n)
            = style_visibility (node_of pg3 n))"
  by (auto simp: initCapture_def Let_def style_visibility_kept split: prod.splits)

lemma prepare_restore_visibility:
  assumes "distinct (dom pg)" and "k \<in> set (dom pg)"
  shows "style_visibility (node_of (snd (prepared_then_restored pg)) k)
         = style_visibility (node_of pg k)"
proof -
  obtain m ag3 pg5 where prep: "prepared pg = (m, ag3, pg5)"
    by (cases "prepared pg")
  from initCapture_shape [of agent0 pg] prep obtain sc ag2 pg2 pg3 where
    c: "createProgressBar
          (agent0\<lparr>scrollContainer := Some sc, cs_originalScrollY := m_originalScrollY m\<rparr>) pg
        = (ag2, pg2)"
    and h: "hideFixedElements ag2 pg2 = (ag3, pg3)"
    and v5: "\<forall>n. style_visibility (node_of pg5 n) = style_visibility (node_of pg3 n)"
    by (auto simp: prepared_def)
  have res: "prepared_then_restored pg = restorePage (m_originalScrollY m) ag3 pg5"
    by (simp add: prepared_then_restored_def prep)
  from c have pg2: "dom pg2 = dom pg @ [fresh_node pg, Suc (fresh_node pg)]"
    "originalStyles ag2 = []" "\<forall>n \<in> set (dom pg). node_of pg2 n = node_of pg n"
    using fresh_node_new [of pg]
    by (auto simp: createProgressBar_def agent0_def Let_def)
  with assms(1) fresh_node_new [of pg] have d2: "distinct (dom pg2)" by auto
  from h have "fold hide_if_fixed (dom pg2) (ag2, pg2) = (ag3, pg3)"
    by (simp add: hideFixedElements_def)
  from fold_hide_if_fixed [OF d2 _ this] pg2(2)
  have d3: "distinct (map fst (originalStyles ag3))"
    and saved: "\<forall>(n, st) \<in> set (originalStyles ag3).
                  saved_visibility st = style_visibility (node_of pg2 n)"
    and kept: "\<forall>n. n \<notin> fst ` set (originalStyles ag3) \<longrightarrow> node_of pg3 n = node_of pg2 n"
    by auto
  show ?thesis
  proof (cases "k \<in> fst ` set (originalStyles ag3)")
    case True
    then obtain st where st: "(k, st) \<in> set (originalStyles ag3)" by force
    from restorePage_visibility [OF d3 st] saved st pg2(3) assms(2) show ?thesis
      by (auto simp: res)
  next
    case False
    from restorePage_visibility_other [OF False d3] v5 kept False pg2(3) assms(2) show ?thesis
      by (simp add: res)
  qed
qed

end
